theory Spec2Isabelle
  imports Main "HOL-Library.Multiset" "HOL-Library.Sublist" "HOL-Library.Word"
begin

section \<open>The data model of the catalog scraper\<close>

text \<open>
  The structs \<^verbatim>\<open>Page\<close>, \<^verbatim>\<open>Newsletter\<close> and \<^verbatim>\<open>ScrapedCatalog\<close> of the Go
  package. Go's \<^verbatim>\<open>int\<close> fields are modelled as \<open>int\<close>; strings are byte strings.
  The \<^verbatim>\<open>LastUpdated\<close> time stamp of a newsletter is the wall clock and is left out.
\<close>

record Page =
  PageNumber :: int
  ImageURL :: string

record Newsletter =
  ID :: string
  Store :: string
  Title :: string
  ValidFrom :: string
  ValidUntil :: string
  CoverImage :: string
  Pages :: "Page list"

record ScrapedCatalog =
  cTitle :: string
  cValidFrom :: string
  cValidUntil :: string
  cCoverImage :: string
  PageImages :: "string list"

text \<open>
  Two configuration structs are called \<^verbatim>\<open>ScraperConfig\<close> in the package: the one of the
  store scraper (\<^verbatim>\<open>scrapeCatalogPages\<close>, \<^verbatim>\<open>downloadCatalogImages\<close>), of which only the
  fields read here are kept, and the one of \<^verbatim>\<open>config.go\<close>, read by
  \<^verbatim>\<open>ScrapeAndDownloadFromConfig\<close>.
\<close>

record StoreScraperConfig =
  StoreName :: string
  PageIndexStart :: int
  MaxPages :: int

record ScraperConfig =
  confID :: string
  confCoverImage :: string
  FirstPage :: string
  LastPage :: string

text \<open>
  Functions of the Go standard library that the code calls and that are not modelled
  byte by byte are parameters: \<^verbatim>\<open>strings.TrimSpace\<close>, \<^verbatim>\<open>strings.ToLower\<close>,
  \<^verbatim>\<open>filepath.Join\<close>, and \<^verbatim>\<open>url.Parse\<close> (which gives the scheme and the host of a
  URL, or fails). Every theorem holds for every choice of them.
\<close>

record lib =
  TrimSpace :: "string \<Rightarrow> string"
  ToLower :: "string \<Rightarrow> string"
  Join :: "string \<Rightarrow> string \<Rightarrow> string"
  ParseURL :: "string \<Rightarrow> (string \<times> string) option"

section \<open>sortPages: the in-place exchange sort\<close>

text \<open>
  \<^verbatim>\<open>
  func sortPages(pages []Page) {
      for i := range pages {
          for j := i + 1; j < len(pages); j++ {
              if pages[i].PageNumber > pages[j].PageNumber {
                  pages[i], pages[j] = pages[j], pages[i]
              }
          }
      }
  }
  \<close>
  The slice is a list updated by index; both indices are always in range, and a swap
  keeps the length, so the bound of \<^verbatim>\<open>range pages\<close> never changes.
\<close>

function sortPages_inner :: "nat \<Rightarrow> nat \<Rightarrow> Page list \<Rightarrow> Page list" where
  "sortPages_inner i j pages =
     (if j < length pages
      then sortPages_inner i (j + 1)
             (if PageNumber (pages ! i) > PageNumber (pages ! j)
              then pages[i := pages ! j, j := pages ! i]
              else pages)
      else pages)"
  by pat_completeness auto
termination
  by (relation "measure (\<lambda>(i, j, pages). length pages - j)") auto

declare sortPages_inner.simps [simp del]

lemma length_sortPages_inner [simp]:
  "length (sortPages_inner i j pages) = length pages"
  by (induction i j pages rule: sortPages_inner.induct)
     (subst sortPages_inner.simps, auto)

function sortPages_outer :: "nat \<Rightarrow> Page list \<Rightarrow> Page list" where
  "sortPages_outer i pages =
     (if i < length pages
      then sortPages_outer (i + 1) (sortPages_inner i (i + 1) pages)
      else pages)"
  by pat_completeness auto
termination
  by (relation "measure (\<lambda>(i, pages). length pages - i)") auto

declare sortPages_outer.simps [simp del]

definition sortPages :: "Page list \<Rightarrow> Page list" where
  "sortPages pages = sortPages_outer 0 pages"

section \<open>downloadCatalogImages: the bounded-parallel download phase\<close>

text \<open>
  \<^verbatim>\<open>fmt.Sprintf("%d", n)\<close> and \<^verbatim>\<open>fmt.Sprintf("%02d", n)\<close>, \<^verbatim>\<open>"%03d"\<close>: the decimal
  numeral of an integer, with a minus sign for a negative one, and the same padded with
  zeros to a width (the sign counts, and comes before the zeros).
\<close>

definition digitChar :: "nat \<Rightarrow> char" where
  "digitChar d = ''0123456789'' ! d"

function showNat :: "nat \<Rightarrow> string" where
  "showNat n = (if n < 10 then [digitChar n] else showNat (n div 10) @ [digitChar (n mod 10)])"
  by pat_completeness auto
termination
  by (relation "measure id") auto

declare showNat.simps [simp del]

definition showInt :: "int \<Rightarrow> string" where
  "showInt n = (if n < 0 then CHR ''-'' # showNat (nat (- n)) else showNat (nat n))"

definition showIntPad :: "nat \<Rightarrow> int \<Rightarrow> string" where
  "showIntPad wd n =
     (if n < 0
      then CHR ''-'' # replicate (wd - 1 - length (showNat (nat (- n)))) CHR ''0'' @ showNat (nat (- n))
      else replicate (wd - length (showNat (nat n))) CHR ''0'' @ showNat (nat n))"

text \<open>
  The world the download phase runs in. A goroutine is started for every index \<open>i\<close> of
  \<^verbatim>\<open>catalog.PageImages\<close> below \<^verbatim>\<open>config.MaxPages\<close>; each one downloads its image
  and, if that succeeded, appends its page under the mutex. The world fixes
  \<^item> whether \<^verbatim>\<open>os.MkdirAll\<close> succeeds,
  \<^item> for each goroutine whether its \<^verbatim>\<open>downloadImage\<close> returned without error,
  \<^item> the order in which the goroutines reach the critical section (a schedule).
  The download of the cover, whose result the code ignores, adds no page.
\<close>

record download_world =
  mkdirOK :: bool
  fetched :: "nat \<Rightarrow> bool"
  schedule :: "nat list"

datatype dl_error = MkdirError

definition launched :: "ScrapedCatalog \<Rightarrow> StoreScraperConfig \<Rightarrow> nat list" where
  "launched catalog config = filter (\<lambda>i. int i < MaxPages config) [0 ..< length (PageImages catalog)]"

definition catalogID :: "lib \<Rightarrow> ScrapedCatalog \<Rightarrow> StoreScraperConfig \<Rightarrow> string" where
  "catalogID L catalog config =
     ToLower L (StoreName config) @ ''-'' @ filter (\<lambda>c. c \<noteq> CHR ''-'') (cValidFrom catalog)"

definition newPage :: "string \<Rightarrow> nat \<Rightarrow> Page" where
  "newPage ident num =
     \<lparr>PageNumber = int num + 1,
      ImageURL = ''/newsletters/'' @ ident @ ''/'' @ (''page-'' @ showIntPad 2 (int num + 1) @ ''.jpg'')\<rparr>"

fun collect :: "string \<Rightarrow> (nat \<Rightarrow> bool) \<Rightarrow> nat list \<Rightarrow> Page list \<Rightarrow> Page list" where
  "collect ident ok [] pages = pages"
| "collect ident ok (num # rest) pages =
     collect ident ok rest (if ok num then pages @ [newPage ident num] else pages)"

definition valid_schedule :: "ScrapedCatalog \<Rightarrow> StoreScraperConfig \<Rightarrow> nat list \<Rightarrow> bool" where
  "valid_schedule catalog config order = (mset order = mset (launched catalog config))"

definition downloadCatalogImages ::
  "lib \<Rightarrow> download_world \<Rightarrow> ScrapedCatalog \<Rightarrow> StoreScraperConfig \<Rightarrow> dl_error + Newsletter" where
  "downloadCatalogImages L w catalog config =
     (let ident = catalogID L catalog config in
      if \<not> mkdirOK w then Inl MkdirError
      else Inr \<lparr>ID = ident,
                Store = StoreName config,
                Title = cTitle catalog,
                ValidFrom = cValidFrom catalog,
                ValidUntil = cValidUntil catalog,
                CoverImage = ''/newsletters/'' @ ident @ ''/cover.jpg'',
                Pages = sortPages (collect ident (fetched w) (schedule w) [])\<rparr>)"

section \<open>Correctness of sortPages\<close>

lemma mset_sortPages_inner:
  "i < j \<Longrightarrow> mset (sortPages_inner i j pages) = mset pages"
proof (induction i j pages rule: sortPages_inner.induct)
  case (1 i j pages)
  show ?case
  proof (cases "j < length pages")
    case True
    then have "mset (pages[i := pages ! j, j := pages ! i]) = mset pages"
      using "1.prems" by (simp add: mset_swap)
    with True 1 show ?thesis
      by (subst sortPages_inner.simps) auto
  next
    case False
    then show ?thesis by (subst sortPages_inner.simps) simp
  qed
qed

lemma take_sortPages_inner:
  "i < j \<Longrightarrow> take i (sortPages_inner i j pages) = take i pages"
proof (induction i j pages rule: sortPages_inner.induct)
  case (1 i j pages)
  show ?case
  proof (cases "j < length pages")
    case True
    with 1 show ?thesis
      by (subst sortPages_inner.simps) auto
  next
    case False
    then show ?thesis by (subst sortPages_inner.simps) simp
  qed
qed

text \<open>After the inner loop for \<open>i\<close>, position \<open>i\<close> holds a least page number of the rest.\<close>

lemma sortPages_inner_least:
  "i < j \<Longrightarrow> \<forall>k. i < k \<and> k < j \<longrightarrow> PageNumber (pages ! i) \<le> PageNumber (pages ! k) \<Longrightarrow>
   k < length pages \<Longrightarrow> i < k \<Longrightarrow>
   PageNumber (sortPages_inner i j pages ! i) \<le> PageNumber (sortPages_inner i j pages ! k)"
proof (induction i j pages arbitrary: k rule: sortPages_inner.induct)
  case (1 i j pages)
  show ?case
  proof (cases "j < length pages")
    case True
    let ?p = "if PageNumber (pages ! i) > PageNumber (pages ! j)
              then pages[i := pages ! j, j := pages ! i] else pages"
    have inv: "\<forall>k. i < k \<and> k < j + 1 \<longrightarrow> PageNumber (?p ! i) \<le> PageNumber (?p ! k)"
      using "1.prems"(1,2) True by (auto simp: nth_list_update less_Suc_eq)
    have "PageNumber (sortPages_inner i (j + 1) ?p ! i) \<le> PageNumber (sortPages_inner i (j + 1) ?p ! k)"
      by (rule "1.IH"[OF True _ inv]) (use "1.prems" in auto)
    then show ?thesis
      using True by (subst (1 2) sortPages_inner.simps) simp
  next
    case False
    with "1.prems" show ?thesis by (subst (1 2) sortPages_inner.simps) simp
  qed
qed

lemma sorted_map_take_Suc:
  "i < length xs \<Longrightarrow> sorted (map f (take i xs)) \<Longrightarrow> \<forall>a \<in> set (take i xs). f a \<le> f (xs ! i) \<Longrightarrow>
   sorted (map f (take (Suc i) xs))"
  by (simp add: take_Suc_conv_app_nth sorted_append)

text \<open>
  The outer loop keeps the first \<open>i\<close> positions sorted and below everything that follows.
\<close>

lemma sortPages_outer_sorted:
  "sorted (map PageNumber (take i pages)) \<Longrightarrow>
   \<forall>a \<in> set (take i pages). \<forall>b \<in> set (drop i pages). PageNumber a \<le> PageNumber b \<Longrightarrow>
   sorted (map PageNumber (sortPages_outer i pages))"
proof (induction i pages rule: sortPages_outer.induct)
  case (1 i pages)
  show ?case
  proof (cases "i < length pages")
    case True
    let ?r = "sortPages_inner i (i + 1) pages"
    have len: "length ?r = length pages" by simp
    have tk: "take i ?r = take i pages" by (simp add: take_sortPages_inner)
    have ms: "mset ?r = mset pages" by (simp add: mset_sortPages_inner)
    have "mset (take i ?r) + mset (drop i ?r) = mset (take i pages) + mset (drop i pages)"
      using ms by (metis append_take_drop_id mset_append)
    then have "mset (drop i ?r) = mset (drop i pages)" using tk by simp
    then have dr: "set (drop i ?r) = set (drop i pages)" by (rule mset_eq_setD)
    have least: "\<forall>k. i < k \<and> k < length pages \<longrightarrow> PageNumber (?r ! i) \<le> PageNumber (?r ! k)"
      using sortPages_inner_least[of i "i + 1" pages] by auto
    have ri: "?r ! i \<in> set (drop i ?r)"
      using True len by (metis Cons_nth_drop_Suc list.set_intros(1))
    have s1: "sorted (map PageNumber (take (Suc i) ?r))"
    proof (rule sorted_map_take_Suc)
      show "i < length ?r" using True by simp
      show "sorted (map PageNumber (take i ?r))" using tk "1.prems"(1) by simp
      show "\<forall>a \<in> set (take i ?r). PageNumber a \<le> PageNumber (?r ! i)"
        using tk dr ri "1.prems"(2) by auto
    qed
    have s2: "\<forall>a \<in> set (take (Suc i) ?r). \<forall>b \<in> set (drop (Suc i) ?r). PageNumber a \<le> PageNumber b"
    proof (intro ballI)
      fix a b assume a: "a \<in> set (take (Suc i) ?r)" and b: "b \<in> set (drop (Suc i) ?r)"
      from b obtain n where n: "n < length (drop (Suc i) ?r)" "b = drop (Suc i) ?r ! n"
        by (metis in_set_conv_nth)
      then have k: "Suc i \<le> Suc i + n" "Suc i + n < length pages" "b = ?r ! (Suc i + n)"
        by auto
      have b': "b \<in> set (drop i ?r)"
        using b by (meson Suc_n_not_le_n nat_le_linear set_drop_subset_set_drop subsetD)
      from a have "a \<in> set (take i ?r) \<or> a = ?r ! i"
        using True by (auto simp: take_Suc_conv_app_nth)
      then show "PageNumber a \<le> PageNumber b"
      proof
        assume "a \<in> set (take i ?r)"
        then show ?thesis using tk dr b' "1.prems"(2) by auto
      next
        assume "a = ?r ! i"
        then show ?thesis using least k by auto
      qed
    qed
    have "sorted (map PageNumber (sortPages_outer (i + 1) ?r))"
      using "1.IH"[OF True] s1 s2 by simp
    then show ?thesis using True by (subst sortPages_outer.simps) simp
  next
    case False
    then have "take i pages = pages" by simp
    with False "1.prems"(1) show ?thesis by (subst sortPages_outer.simps) simp
  qed
qed

lemma mset_sortPages_outer: "mset (sortPages_outer i pages) = mset pages"
  by (induction i pages rule: sortPages_outer.induct)
     (subst sortPages_outer.simps, simp add: mset_sortPages_inner)

lemma sorted_sortPages: "sorted (map PageNumber (sortPages pages))"
  unfolding sortPages_def by (rule sortPages_outer_sorted) simp_all

lemma mset_sortPages: "mset (sortPages pages) = mset pages"
  unfolding sortPages_def by (rule mset_sortPages_outer)

lemma distinct_keys_sortPages:
  "distinct (map PageNumber pages) \<Longrightarrow> distinct (map PageNumber (sortPages pages))"
  by (metis mset_sortPages mset_map mset_eq_imp_distinct_iff)

section \<open>The download phase yields strictly increasing page numbers\<close>

lemma collect_append:
  "collect ident ok order pages = pages @ map (newPage ident) (filter ok order)"
  by (induction order arbitrary: pages) auto

lemma PageNumber_newPage: "PageNumber (newPage ident num) = int num + 1"
  by (simp add: newPage_def)

lemma distinct_collect:
  assumes "distinct order"
  shows "distinct (map PageNumber (collect ident ok order []))"
proof -
  have "map PageNumber (collect ident ok order []) = map (\<lambda>i. int i + 1) (filter ok order)"
    by (simp add: collect_append PageNumber_newPage comp_def)
  moreover have "distinct (map (\<lambda>i. int i + 1) (filter ok order))"
    using assms by (simp add: distinct_map inj_on_def)
  ultimately show ?thesis by simp
qed

lemma distinct_valid_schedule: "valid_schedule catalog config order \<Longrightarrow> distinct order"
  unfolding valid_schedule_def launched_def
  by (metis distinct_filter distinct_upt mset_eq_imp_distinct_iff)

text \<open>
  Claim C3. Whatever the order in which the parallel downloads complete (any schedule
  that runs every started goroutine exactly once) and whichever downloads fail, the
  page numbers of the newsletter returned by \<^verbatim>\<open>downloadCatalogImages\<close> are strictly
  increasing after the final \<^verbatim>\<open>sortPages\<close>, hence without duplicates.
\<close>

theorem download_phase_pages_strictly_increasing:
  assumes "valid_schedule catalog config (schedule w)"
    and "downloadCatalogImages L w catalog config = Inr n"
  shows "sorted_wrt (<) (map PageNumber (Pages n)) \<and> distinct (map PageNumber (Pages n))"
proof -
  let ?c = "collect (catalogID L catalog config) (fetched w) (schedule w) []"
  have P: "Pages n = sortPages ?c"
    using assms(2) by (auto simp: downloadCatalogImages_def Let_def split: if_splits)
  have "distinct (map PageNumber ?c)"
    using assms(1) by (intro distinct_collect distinct_valid_schedule)
  then have d: "distinct (map PageNumber (sortPages ?c))"
    by (rule distinct_keys_sortPages)
  with sorted_sortPages[of ?c] show ?thesis
    unfolding P by (simp add: strict_sorted_iff)
qed

text \<open>
  A run with four scraped images and \<^verbatim>\<open>MaxPages = 3\<close>: goroutines 0, 1, 2 are started,
  they finish in the order 2, 0, 1, and the download of goroutine 1 fails.
\<close>

definition cat3 :: ScrapedCatalog where
  "cat3 = \<lparr>cTitle = ''t'', cValidFrom = ''2026-02-09'', cValidUntil = ''2026-02-15'',
           cCoverImage = ''a'', PageImages = [''a'', ''b'', ''c'', ''d'']\<rparr>"

definition lib0 :: lib where
  "lib0 = \<lparr>TrimSpace = (\<lambda>s. s), ToLower = (\<lambda>s. s), Join = (\<lambda>a b. a @ ''/'' @ b),
            ParseURL = (\<lambda>u. None)\<rparr>"

definition cfg3 :: StoreScraperConfig where
  "cfg3 = \<lparr>StoreName = ''Lidl'', PageIndexStart = 1, MaxPages = 3\<rparr>"

definition world3 :: download_world where
  "world3 = \<lparr>mkdirOK = True, fetched = (\<lambda>i. i \<noteq> 1), schedule = [2, 0, 1]\<rparr>"

lemma launched3: "launched cat3 cfg3 = [0, 1, 2]"
  by (simp add: launched_def cat3_def cfg3_def upt_rec)

theorem download_phase_pages_strictly_increasing_witness:
  "valid_schedule cat3 cfg3 (schedule world3) \<and>
   (\<exists>n. downloadCatalogImages lib0 world3 cat3 cfg3 = Inr n \<and>
        sorted_wrt (<) (map PageNumber (Pages n)) \<and> distinct (map PageNumber (Pages n)))"
proof -
  have v: "valid_schedule cat3 cfg3 (schedule world3)"
    by (simp add: valid_schedule_def launched3 world3_def)
  obtain n where n: "downloadCatalogImages lib0 world3 cat3 cfg3 = Inr n"
    by (simp add: downloadCatalogImages_def world3_def Let_def)
  from download_phase_pages_strictly_increasing[OF v n] v n show ?thesis by blast
qed

section \<open>sortPages against a stable sort by page number\<close>

text \<open>
  Claim C9, as stated: for every list of pages \<^verbatim>\<open>sortPages\<close> returns what a stable sort
  by page number returns. The exchange sort is not stable: with two pages numbered 2
  in front of a page numbered 1, the first swap moves the first of the equal pages
  behind the second.
\<close>

definition unstable3 :: "Page list" where
  "unstable3 = [\<lparr>PageNumber = 2, ImageURL = ''a''\<rparr>, \<lparr>PageNumber = 2, ImageURL = ''b''\<rparr>,
      \<lparr>PageNumber = 1, ImageURL = ''c''\<rparr>]"

lemma sortPages_unstable3:
  "sortPages unstable3 = [\<lparr>PageNumber = 1, ImageURL = ''c''\<rparr>, \<lparr>PageNumber = 2, ImageURL = ''b''\<rparr>,
      \<lparr>PageNumber = 2, ImageURL = ''a''\<rparr>]"
  by (simp add: sortPages_def unstable3_def sortPages_outer.simps sortPages_inner.simps)

theorem sortPages_not_stable_counterexample:
  "sortPages unstable3 \<noteq> sort_key PageNumber unstable3"
  unfolding sortPages_unstable3 by (simp add: unstable3_def)

text \<open>
  Claim C9, amended: for every list of pages with pairwise distinct page numbers (the
  only lists \<^verbatim>\<open>downloadCatalogImages\<close> passes), \<^verbatim>\<open>sortPages\<close> returns exactly what
  the stable sort by the page-number key returns.
\<close>

theorem sortPages_eq_stable_sort_distinct:
  assumes "distinct (map PageNumber pages)"
  shows "sortPages pages = sort_key PageNumber pages"
proof -
  have "mset (map PageNumber (sortPages pages)) = mset (map PageNumber (sort_key PageNumber pages))"
    by (simp add: mset_sortPages)
  moreover have "sorted (map PageNumber (sort_key PageNumber pages))" by simp
  ultimately have keys: "map PageNumber (sortPages pages) = map PageNumber (sort_key PageNumber pages)"
    using sorted_sortPages by (metis properties_for_sort)
  have inj: "inj_on PageNumber (set (sortPages pages) \<union> set (sort_key PageNumber pages))"
    using assms by (metis distinct_map mset_sortPages mset_eq_setD set_sort sup.idem)
  show ?thesis using keys inj by (simp add: inj_on_map_eq_map)
qed

theorem sortPages_eq_stable_sort_distinct_witness:
  "distinct (map PageNumber [\<lparr>PageNumber = 3, ImageURL = ''a''\<rparr>, \<lparr>PageNumber = 1, ImageURL = ''b''\<rparr>]) \<and>
   sortPages [\<lparr>PageNumber = 3, ImageURL = ''a''\<rparr>, \<lparr>PageNumber = 1, ImageURL = ''b''\<rparr>]
   = [\<lparr>PageNumber = 1, ImageURL = ''b''\<rparr>, \<lparr>PageNumber = 3, ImageURL = ''a''\<rparr>]"
  using sortPages_eq_stable_sort_distinct
          [of "[\<lparr>PageNumber = 3, ImageURL = ''a''\<rparr>, \<lparr>PageNumber = 1, ImageURL = ''b''\<rparr>]"]
  by simp

section \<open>The URL templater: extractPageNumber and buildPageURL\<close>

text \<open>
  \<^verbatim>\<open>
  func extractPageNumber(pageURL string) (int, error) {
      re := regexp.MustCompile(`/page/(\d+)`)
      matches := re.FindStringSubmatch(pageURL)
      if len(matches) < 2 {
          return 0, fmt.Errorf("page number not found in URL: %s", pageURL)
      }
      return strconv.Atoi(matches[1])
  }

  func buildPageURL(templateURL string, pageNum int) string {
      re := regexp.MustCompile(`/page/\d+`)
      return re.ReplaceAllString(templateURL, fmt.Sprintf("/page/%d", pageNum))
  }
  \<close>
  The regular expression is matched on the bytes of the URL: \<open>matchAt\<close> is the match
  anchored at the start of a string (the literal \<^verbatim>\<open>/page/\<close>, then the longest
  non-empty run of ASCII digits; it returns the digits and what follows them),
  \<open>findPage\<close> is the capture group of the leftmost match as
  \<^verbatim>\<open>FindStringSubmatch\<close> returns it, and \<open>replaceAll\<close> is \<^verbatim>\<open>ReplaceAllString\<close>:
  every match, from left to right, the search resuming behind each match. The
  replacement text \<^verbatim>\<open>/page/<n>\<close> has no \<^verbatim>\<open>$\<close>, so it is inserted as it is.
  \<^verbatim>\<open>strconv.Atoi\<close> of a digit string fails exactly when the number exceeds the
  largest \<^verbatim>\<open>int\<close> (64 bits).
\<close>

definition isDigit :: "char \<Rightarrow> bool" where
  "isDigit c = (c \<in> set ''0123456789'')"

definition digitVal :: "char \<Rightarrow> nat" where
  "digitVal c = of_char c - 48"

definition parseNat :: "string \<Rightarrow> nat" where
  "parseNat ds = foldl (\<lambda>a c. 10 * a + digitVal c) 0 ds"

datatype url_error = PageNumberNotFound | ValueOutOfRange

definition maxInt :: int where
  "maxInt = 2 ^ 63 - 1"

definition Atoi :: "string \<Rightarrow> url_error + int" where
  "Atoi ds = (if int (parseNat ds) > maxInt then Inl ValueOutOfRange else Inr (int (parseNat ds)))"

definition matchAt :: "string \<Rightarrow> (string \<times> string) option" where
  "matchAt s =
     (if take 6 s = ''/page/'' \<and> takeWhile isDigit (drop 6 s) \<noteq> []
      then Some (takeWhile isDigit (drop 6 s), dropWhile isDigit (drop 6 s))
      else None)"

fun findPage :: "string \<Rightarrow> string option" where
  "findPage [] = None"
| "findPage (c # cs) =
     (case matchAt (c # cs) of
        Some (ds, rest) \<Rightarrow> Some ds
      | None \<Rightarrow> findPage cs)"

definition extractPageNumber :: "string \<Rightarrow> url_error + int" where
  "extractPageNumber pageURL =
     (case findPage pageURL of
        None \<Rightarrow> Inl PageNumberNotFound
      | Some ds \<Rightarrow> Atoi ds)"


lemma matchAt_shorter: "matchAt s = Some (ds, rest) \<Longrightarrow> length rest < length s"
proof -
  assume a: "matchAt s = Some (ds, rest)"
  then have r: "rest = dropWhile isDigit (drop 6 s)" and t: "take 6 s = ''/page/''"
    by (auto simp: matchAt_def split: if_splits)
  from t have "length (take 6 s) = 6" by simp
  then have "length s \<ge> 6" by simp
  moreover have "length rest \<le> length s - 6"
    unfolding r by (metis length_dropWhile_le length_drop)
  ultimately show ?thesis by simp
qed


function replaceAll :: "string \<Rightarrow> string \<Rightarrow> string" where
  "replaceAll repl [] = []"
| "replaceAll repl (c # cs) =
     (case matchAt (c # cs) of
        Some (ds, rest) \<Rightarrow> repl @ replaceAll repl rest
      | None \<Rightarrow> c # replaceAll repl cs)"
  by pat_completeness auto
termination
  by (relation "measure (\<lambda>(repl, s). length s)") (auto dest: matchAt_shorter)

definition buildPageURL :: "string \<Rightarrow> int \<Rightarrow> string" where
  "buildPageURL templateURL pageNum = replaceAll (''/page/'' @ showInt pageNum) templateURL"

text \<open>
  Vocabulary for the statements: an occurrence of the page pattern starts at
  position \<open>i\<close> of \<open>u\<close>; the positions of all occurrences, ascending; the digits
  of the occurrence at \<open>k\<close> and the text behind them; a numeral without superfluous
  leading zeros.
\<close>

definition occurs_at :: "string \<Rightarrow> nat \<Rightarrow> bool" where
  "occurs_at u i =
     (take 6 (drop i u) = ''/page/'' \<and>
      (case drop (i + 6) u of [] \<Rightarrow> False | d # _ \<Rightarrow> isDigit d))"

definition occurrences :: "string \<Rightarrow> nat list" where
  "occurrences u = filter (occurs_at u) [0 ..< length u]"


definition pageDigits :: "string \<Rightarrow> nat \<Rightarrow> string" where
  "pageDigits u k = takeWhile isDigit (drop (k + 6) u)"

definition afterDigits :: "string \<Rightarrow> nat \<Rightarrow> string" where
  "afterDigits u k = dropWhile isDigit (drop (k + 6) u)"

definition noLeadingZero :: "string \<Rightarrow> bool" where
  "noLeadingZero ds = (case ds of [] \<Rightarrow> False | d # rest \<Rightarrow> rest = [] \<or> d \<noteq> CHR ''0'')"


subsection \<open>The leftmost occurrence decides\<close>

lemma takeWhile_nonempty_iff:
  "takeWhile P xs \<noteq> [] \<longleftrightarrow> (case xs of [] \<Rightarrow> False | d # _ \<Rightarrow> P d)"
  by (cases xs) auto

lemma occurs_at_matchAt: "occurs_at u i \<longleftrightarrow> matchAt (drop i u) \<noteq> None"
  by (simp add: occurs_at_def matchAt_def takeWhile_nonempty_iff add.commute)

lemma occurs_at_0: "occurs_at u 0 \<longleftrightarrow> matchAt u \<noteq> None"
  using occurs_at_matchAt[of u 0] by simp

lemma not_occurs_at_0: "\<not> occurs_at u 0 \<Longrightarrow> matchAt u = None"
  using occurs_at_0[of u] by blast

lemma occurs_at_Suc: "occurs_at (c # cs) (Suc i) = occurs_at cs i"
  by (simp add: occurs_at_matchAt)

lemma occurs_at_drop: "occurs_at (drop m u) i = occurs_at u (m + i)"
  by (simp add: occurs_at_matchAt add.commute)

lemma occurs_at_bound: "occurs_at u i \<Longrightarrow> i < length u"
  by (cases "i < length u") (auto simp: occurs_at_def)

lemma matchAt_Some:
  "matchAt s \<noteq> None \<Longrightarrow>
   matchAt s = Some (takeWhile isDigit (drop 6 s), dropWhile isDigit (drop 6 s))"
  by (simp add: matchAt_def split: if_splits)

lemma drop_Suc_plus6: "drop (Suc k + 6) (c # cs) = drop (k + 6) cs"
  by (simp only: add_Suc drop_Suc_Cons)

lemma findPage_first:
  "occurs_at u k \<Longrightarrow> \<forall>i<k. \<not> occurs_at u i \<Longrightarrow>
   findPage u = Some (takeWhile isDigit (drop (k + 6) u))"
proof (induction u arbitrary: k)
  case Nil
  then show ?case by (simp add: occurs_at_def)
next
  case (Cons c cs)
  show ?case
  proof (cases k)
    case 0
    with Cons.prems(1) have "matchAt (c # cs) \<noteq> None" by (simp add: occurs_at_0)
    from matchAt_Some[OF this] 0 show ?thesis by simp
  next
    case (Suc k')
    with Cons.prems(2) have "\<not> occurs_at (c # cs) 0" by blast
    then have none: "matchAt (c # cs) = None" by (rule not_occurs_at_0)
    have o: "occurs_at cs k'" using Cons.prems(1) Suc by (simp add: occurs_at_Suc)
    have "\<forall>i<k'. \<not> occurs_at cs i"
      using Cons.prems(2) Suc occurs_at_Suc by (metis Suc_less_eq)
    with o have "findPage cs = Some (takeWhile isDigit (drop (k' + 6) cs))"
      by (rule Cons.IH)
    then have "findPage (c # cs) = Some (takeWhile isDigit (drop (k' + 6) cs))"
      using none by simp
    then show ?thesis unfolding Suc drop_Suc_plus6 .
  qed
qed

lemma findPage_none: "\<forall>i. \<not> occurs_at u i \<Longrightarrow> findPage u = None"
proof (induction u)
  case Nil
  then show ?case by simp
next
  case (Cons c cs)
  from Cons.prems have "\<not> occurs_at (c # cs) 0" by blast
  then have none: "matchAt (c # cs) = None" by (rule not_occurs_at_0)
  have "\<forall>i. \<not> occurs_at cs i" using Cons.prems occurs_at_Suc by blast
  with Cons.IH none show ?case by simp
qed

lemma replaceAll_first:
  "occurs_at u k \<Longrightarrow> \<forall>i<k. \<not> occurs_at u i \<Longrightarrow>
   replaceAll repl u = take k u @ repl @ replaceAll repl (dropWhile isDigit (drop (k + 6) u))"
proof (induction u arbitrary: k)
  case Nil
  then show ?case by (simp add: occurs_at_def)
next
  case (Cons c cs)
  show ?case
  proof (cases k)
    case 0
    with Cons.prems(1) have "matchAt (c # cs) \<noteq> None" by (simp add: occurs_at_0)
    from matchAt_Some[OF this] 0 show ?thesis by simp
  next
    case (Suc k')
    with Cons.prems(2) have "\<not> occurs_at (c # cs) 0" by blast
    then have none: "matchAt (c # cs) = None" by (rule not_occurs_at_0)
    have o: "occurs_at cs k'" using Cons.prems(1) Suc by (simp add: occurs_at_Suc)
    have "\<forall>i<k'. \<not> occurs_at cs i"
      using Cons.prems(2) Suc occurs_at_Suc by (metis Suc_less_eq)
    with o have "replaceAll repl cs
        = take k' cs @ repl @ replaceAll repl (dropWhile isDigit (drop (k' + 6) cs))"
      by (rule Cons.IH)
    then have "replaceAll repl (c # cs)
        = take (Suc k') (c # cs) @ repl @ replaceAll repl (dropWhile isDigit (drop (k' + 6) cs))"
      using none by simp
    then show ?thesis unfolding Suc drop_Suc_plus6 .
  qed
qed

lemma replaceAll_none: "\<forall>i. \<not> occurs_at u i \<Longrightarrow> replaceAll repl u = u"
proof (induction u)
  case Nil
  then show ?case by simp
next
  case (Cons c cs)
  from Cons.prems have "\<not> occurs_at (c # cs) 0" by blast
  then have none: "matchAt (c # cs) = None" by (rule not_occurs_at_0)
  have "\<forall>i. \<not> occurs_at cs i" using Cons.prems occurs_at_Suc by blast
  with Cons.IH none show ?case by simp
qed

lemma upt_split_at:
  assumes a: "[0 ..< n] = us @ k # vs"
  shows "us = [0 ..< k] \<and> vs = [Suc k ..< n] \<and> k < n"
proof -
  have "length [0 ..< n] = length (us @ k # vs)" using a by simp
  then have len: "length us < n" by simp
  have "[0 ..< n] ! length us = (us @ k # vs) ! length us" using a by simp
  then have k: "length us = k" using len by simp
  have "take k [0 ..< n] = take k (us @ k # vs)" using a by simp
  then have us: "us = [0 ..< k]" using k len by simp
  have "drop (Suc k) [0 ..< n] = drop (Suc k) (us @ k # vs)" using a by simp
  then have vs: "vs = [Suc k ..< n]" using k by simp
  show ?thesis using us vs len k by simp
qed

lemma occurrences_Cons:
  assumes "occurrences u = k # ks"
  shows "occurs_at u k" and "\<forall>i<k. \<not> occurs_at u i"
    and "ks = filter (occurs_at u) [Suc k ..< length u]"
proof -
  from assms obtain us vs where
    s: "[0 ..< length u] = us @ k # vs" and n: "\<forall>x\<in>set us. \<not> occurs_at u x"
    and p: "occurs_at u k" and r: "ks = filter (occurs_at u) vs"
    unfolding occurrences_def filter_eq_Cons_iff by blast
  from upt_split_at[OF s] have us: "us = [0 ..< k]" and vs: "vs = [Suc k ..< length u]" by auto
  show "occurs_at u k" by (rule p)
  show "\<forall>i<k. \<not> occurs_at u i" using n us by simp
  show "ks = filter (occurs_at u) [Suc k ..< length u]" using r vs by simp
qed

lemma occurrences_single:
  assumes "occurrences u = [k]"
  shows "\<forall>i. k < i \<longrightarrow> \<not> occurs_at u i"
proof (intro allI impI)
  fix i assume "k < i"
  from occurrences_Cons(3)[OF assms] have e: "filter (occurs_at u) [Suc k ..< length u] = []" by simp
  show "\<not> occurs_at u i"
  proof
    assume o: "occurs_at u i"
    then have "i < length u" by (rule occurs_at_bound)
    with \<open>k < i\<close> have "i \<in> set [Suc k ..< length u]" by simp
    with o have "i \<in> set (filter (occurs_at u) [Suc k ..< length u])" by simp
    with e show False by simp
  qed
qed

lemma isDigit_cases:
  "isDigit c \<Longrightarrow> c = CHR ''0'' \<or> c = CHR ''1'' \<or> c = CHR ''2'' \<or> c = CHR ''3'' \<or> c = CHR ''4'' \<or>
     c = CHR ''5'' \<or> c = CHR ''6'' \<or> c = CHR ''7'' \<or> c = CHR ''8'' \<or> c = CHR ''9''"
  by (auto simp: isDigit_def)

lemma digitVal_lt10: "isDigit c \<Longrightarrow> digitVal c < 10"
  by (drule isDigit_cases) (auto simp: digitVal_def)

lemma digitChar_digitVal: "isDigit c \<Longrightarrow> digitChar (digitVal c) = c"
  by (drule isDigit_cases) (auto simp: digitVal_def digitChar_def)

lemma digitVal_pos: "isDigit c \<Longrightarrow> c \<noteq> CHR ''0'' \<Longrightarrow> 0 < digitVal c"
  by (drule isDigit_cases) (auto simp: digitVal_def)

lemma parseNat_snoc: "parseNat (ds @ [c]) = 10 * parseNat ds + digitVal c"
  by (simp add: parseNat_def)

lemma parseNat_pos:
  "ds \<noteq> [] \<Longrightarrow> list_all isDigit ds \<Longrightarrow> hd ds \<noteq> CHR ''0'' \<Longrightarrow> 0 < parseNat ds"
proof (induction ds rule: rev_induct)
  case Nil
  then show ?case by simp
next
  case (snoc c ds)
  show ?case
  proof (cases "ds = []")
    case True
    with snoc.prems show ?thesis by (simp add: parseNat_def digitVal_pos)
  next
    case False
    with snoc have "0 < parseNat ds" by simp
    then show ?thesis by (simp add: parseNat_snoc)
  qed
qed

lemma showNat_parseNat:
  "list_all isDigit ds \<Longrightarrow> noLeadingZero ds \<Longrightarrow> showNat (parseNat ds) = ds"
proof (induction ds rule: rev_induct)
  case Nil
  then show ?case by (simp add: noLeadingZero_def)
next
  case (snoc c ds)
  from snoc.prems(1) have c: "isDigit c" and ds: "list_all isDigit ds" by simp_all
  show ?case
  proof (cases "ds = []")
    case True
    then have "parseNat (ds @ [c]) = digitVal c" by (simp add: parseNat_def)
    with True c show ?thesis
      by (subst showNat.simps) (simp add: digitVal_lt10 digitChar_digitVal)
  next
    case False
    with snoc.prems(2) have h: "hd ds \<noteq> CHR ''0''"
      by (cases ds) (auto simp: noLeadingZero_def)
    then have nz: "noLeadingZero ds" using False by (cases ds) (auto simp: noLeadingZero_def)
    have pos: "0 < parseNat ds" using False ds h by (rule parseNat_pos)
    have lt: "digitVal c < 10" using c by (rule digitVal_lt10)
    have d: "(10 * parseNat ds + digitVal c) div 10 = parseNat ds" using lt by simp
    have m: "(10 * parseNat ds + digitVal c) mod 10 = digitVal c" using lt by simp
    have "showNat (10 * parseNat ds + digitVal c) = showNat (parseNat ds) @ [digitChar (digitVal c)]"
      using pos by (subst showNat.simps) (simp only: d m, simp)
    then show ?thesis
      using snoc.IH[OF ds nz] c by (simp add: parseNat_snoc digitChar_digitVal)
  qed
qed

lemma list_all_pageDigits: "list_all isDigit (pageDigits u k)"
  unfolding pageDigits_def list_all_iff by (metis set_takeWhileD)

lemma occurs_at_split:
  "occurs_at u k \<Longrightarrow> u = take k u @ ''/page/'' @ pageDigits u k @ afterDigits u k"
proof -
  assume "occurs_at u k"
  then have t: "take 6 (drop k u) = ''/page/''" by (simp add: occurs_at_def)
  have "u = take k u @ drop k u" by simp
  also have "drop k u = take 6 (drop k u) @ drop 6 (drop k u)"
    by (rule append_take_drop_id[symmetric])
  also have "drop 6 (drop k u) = drop (k + 6) u" by (simp add: add.commute)
  also have "drop (k + 6) u = pageDigits u k @ afterDigits u k"
    by (simp add: pageDigits_def afterDigits_def)
  finally show ?thesis using t by simp
qed

lemma afterDigits_drop: "afterDigits u k = drop (k + 6 + length (pageDigits u k)) u"
  unfolding afterDigits_def pageDigits_def
  by (metis dropWhile_eq_drop drop_drop add.commute)


lemmas url_eval = matchAt_def isDigit_def showInt_def showNat.simps digitChar_def
  parseNat_def digitVal_def Atoi_def maxInt_def extractPageNumber_def buildPageURL_def

text \<open>
  Claim C4, as stated: the pattern is matched once, and a template with more than one
  numeric page segment makes \<^verbatim>\<open>buildPageURL\<close> fail. \<^verbatim>\<open>buildPageURL\<close> has no
  error result; on a template with two page segments it returns a URL in which both
  are replaced by the page number.
\<close>

theorem buildPageURL_two_segments_counterexample:
  "buildPageURL ''/page/1/page/2'' 7 = ''/page/7/page/7''"
  by (simp add: url_eval)

text \<open>
  Claim C4, amended: where the first occurrence of \<^verbatim>\<open>/page/<digits>\<close> in a URL starts
  at position \<open>k\<close>, \<^verbatim>\<open>extractPageNumber\<close> reads the digits of that occurrence, and
  \<^verbatim>\<open>buildPageURL\<close> never fails: it keeps the text before \<open>k\<close>, puts the page
  number in place of the digits, and goes on in the same way with the text behind
  them, so every further numeric page segment is replaced as well.
\<close>

theorem templater_first_occurrence_and_replace_all:
  assumes "occurrences u = k # ks"
  shows "extractPageNumber u = Atoi (pageDigits u k) \<and>
         buildPageURL u n = take k u @ ''/page/'' @ showInt n @ buildPageURL (afterDigits u k) n"
proof -
  note o = occurrences_Cons(1,2)[OF assms]
  have "findPage u = Some (pageDigits u k)"
    unfolding pageDigits_def using o by (rule findPage_first)
  then have "extractPageNumber u = Atoi (pageDigits u k)"
    by (simp add: extractPageNumber_def)
  moreover have "buildPageURL u n = take k u @ ''/page/'' @ showInt n @ buildPageURL (afterDigits u k) n"
    unfolding buildPageURL_def afterDigits_def using replaceAll_first[OF o] by simp
  ultimately show ?thesis by simp
qed


lemma occurrences_two_segments: "occurrences ''/page/1/page/2'' = [0, 7]"
  by (simp add: occurrences_def occurs_at_def isDigit_def upt_rec)

theorem templater_first_occurrence_and_replace_all_witness:
  "occurrences ''/page/1/page/2'' = [0, 7] \<and>
   extractPageNumber ''/page/1/page/2'' = Inr 1 \<and>
   buildPageURL ''/page/1/page/2'' 5 = ''/page/5/page/5''"
  using templater_first_occurrence_and_replace_all[OF occurrences_two_segments, of 5]
    occurrences_two_segments
  by (simp add: pageDigits_def afterDigits_def url_eval)

subsection \<open>Round trip\<close>

text \<open>
  Claim C5, as stated: for every URL with a page pattern, putting the extracted page
  number back gives the URL. A page number written with a leading zero is extracted
  as the number and written back without the zero.
\<close>

theorem roundtrip_leading_zero_counterexample:
  "extractPageNumber ''/page/07'' = Inr 7 \<and> buildPageURL ''/page/07'' 7 \<noteq> ''/page/07''"
  by (simp add: url_eval)

text \<open>
  Claim C5, amended: for every URL with exactly one occurrence of \<^verbatim>\<open>/page/<digits>\<close>
  whose digits have no superfluous leading zero and denote a number within the range
  of \<^verbatim>\<open>int\<close>, \<^verbatim>\<open>extractPageNumber\<close> succeeds with some \<open>n\<close> and
  \<^verbatim>\<open>buildPageURL\<close> of the URL and \<open>n\<close> is the URL itself.
\<close>

theorem roundtrip_single_canonical_occurrence:
  assumes "occurrences u = [k]"
    and "noLeadingZero (pageDigits u k)"
    and "int (parseNat (pageDigits u k)) \<le> maxInt"
  shows "\<exists>n. extractPageNumber u = Inr n \<and> buildPageURL u n = u"
proof -
  let ?n = "int (parseNat (pageDigits u k))"
  note o = occurrences_Cons(1,2)[OF assms(1)]
  have "findPage u = Some (pageDigits u k)"
    unfolding pageDigits_def using o by (rule findPage_first)
  then have e: "extractPageNumber u = Inr ?n"
    using assms(3) by (simp add: extractPageNumber_def Atoi_def)
  have "\<forall>i. \<not> occurs_at (afterDigits u k) i"
    unfolding afterDigits_drop occurs_at_drop
    using occurrences_single[OF assms(1)] by simp
  then have r: "replaceAll repl (afterDigits u k) = afterDigits u k" for repl
    by (rule replaceAll_none)
  have s: "showInt ?n = pageDigits u k"
    using showNat_parseNat[OF list_all_pageDigits assms(2)] by (simp add: showInt_def)
  have "buildPageURL u ?n = take k u @ ''/page/'' @ showInt ?n @ afterDigits u k"
    unfolding buildPageURL_def using replaceAll_first[OF o] r by (simp add: afterDigits_def)
  also have "\<dots> = u" unfolding s using occurs_at_split[OF o(1)] by simp
  finally show ?thesis using e by blast
qed

lemma occurrences_single_segment: "occurrences ''/c/page/80'' = [2]"
  by (simp add: occurrences_def occurs_at_def isDigit_def upt_rec)

theorem roundtrip_single_canonical_occurrence_witness:
  "occurrences ''/c/page/80'' = [2] \<and> noLeadingZero (pageDigits ''/c/page/80'' 2) \<and>
   int (parseNat (pageDigits ''/c/page/80'' 2)) \<le> maxInt \<and>
   (\<exists>n. extractPageNumber ''/c/page/80'' = Inr n \<and> buildPageURL ''/c/page/80'' n = ''/c/page/80'')"
proof -
  have a: "noLeadingZero (pageDigits ''/c/page/80'' 2)"
    by (simp add: noLeadingZero_def pageDigits_def isDigit_def)
  have b: "int (parseNat (pageDigits ''/c/page/80'' 2)) \<le> maxInt"
    by (simp add: pageDigits_def url_eval)
  from roundtrip_single_canonical_occurrence[OF occurrences_single_segment a b]
    occurrences_single_segment a b
  show ?thesis by blast
qed

section \<open>The world of the scraper\<close>

text \<open>
  What the code reaches outside the process is a record that every effectful function
  takes and returns.
  \<^item> The network: \<open>network w n url\<close> is what the \<open>n\<close>-th \<^verbatim>\<open>http.Get\<close> of the run gets
    when it asks for \<open>url\<close>: a transport error, or a response with a status and a body.
    \<open>requests\<close> lists the requests made so far. A body is the bytes the server sends;
    \<open>BodyBreaksAfter = Some m\<close> means that reading the body fails after \<open>m\<close> bytes.
  \<^item> The file system: \<open>files\<close> maps a path to the content of the file there;
    \<open>creatable\<close> says where \<^verbatim>\<open>os.Create\<close> succeeds, \<open>writeLimit\<close> after how many
    bytes writing to a path fails (never, for \<open>None\<close>), \<open>mkdirAllOK\<close> where
    \<^verbatim>\<open>os.MkdirAll\<close> succeeds, \<open>configFiles\<close> what \<^verbatim>\<open>LoadScraperConfig\<close> returns.
  \<^item> The browser: \<open>browser w n url\<close> is the outcome of the \<open>n\<close>-th \<^verbatim>\<open>chromedp.Run\<close> of
    the run, navigating to \<open>url\<close>: an error, or the rendered document. Of a document
    the code reads the list of its \<^verbatim>\<open>img\<close> elements in document order and the first
    element that matches a selector (\<open>None\<close> when there is none, and also when the
    selector throws, which the script catches). The four dimensions of an image element
    are attributes of type \<^verbatim>\<open>unsigned long\<close>: 32-bit words.
  \<^item> \<open>log\<close>: the messages of \<^verbatim>\<open>log.Printf\<close> about the cover and the pages.
\<close>

record http_response =
  StatusCode :: int
  Status :: string
  Body :: string
  BodyBreaksAfter :: "nat option"

record img =
  naturalWidth :: "32 word"
  width :: "32 word"
  naturalHeight :: "32 word"
  height :: "32 word"
  src :: string

record document =
  images :: "img list"
  querySelector :: "string \<Rightarrow> img option"

datatype event =
  CoverExtractFailed | CoverDownloadFailed | CoverDownloaded
| PageExtractFailed int | PageDownloadFailed int | PageDownloaded int

record world =
  network :: "nat \<Rightarrow> string \<Rightarrow> string + http_response"
  requests :: "string list"
  files :: "string \<rightharpoonup> string"
  creatable :: "string \<Rightarrow> bool"
  writeLimit :: "string \<Rightarrow> nat option"
  browser :: "nat \<Rightarrow> string \<Rightarrow> string + document"
  navigations :: "string list"
  configFiles :: "string \<Rightarrow> string + ScraperConfig"
  mkdirAllOK :: "string \<Rightarrow> bool"
  log :: "event list"


section \<open>downloadImage\<close>

text \<open>
  \<^verbatim>\<open>
  func downloadImage(imageURL, filePath string) error {
      resp, err := http.Get(imageURL)
      if err != nil { return err }
      defer resp.Body.Close()
      if resp.StatusCode != http.StatusOK {
          return fmt.Errorf("HTTP %d: %s", resp.StatusCode, resp.Status)
      }
      out, err := os.Create(filePath)
      if err != nil { return err }
      defer out.Close()
      _, err = io.Copy(out, resp.Body)
      return err
  }
  \<close>
  \<^verbatim>\<open>os.Create\<close> creates the file or truncates it; \<^verbatim>\<open>io.Copy\<close> writes what it reads
  until the body ends or reading or writing fails, and what it wrote stays in the file.
  \<open>downloadImageTo\<close> is the \<^verbatim>\<open>downloadImage(url, dir, filename)\<close> of the store scraper,
  which joins the path itself and returns it.
\<close>

datatype download_error =
  TransportError string | HTTPStatusError int string | CreateError | CopyError

definition httpGet :: "string \<Rightarrow> world \<Rightarrow> (string + http_response) \<times> world" where
  "httpGet url w = (network w (length (requests w)) url, w\<lparr>requests := requests w @ [url]\<rparr>)"

definition osCreate :: "string \<Rightarrow> world \<Rightarrow> bool \<times> world" where
  "osCreate path w =
     (if creatable w path then (True, w\<lparr>files := (files w)(path \<mapsto> [])\<rparr>) else (False, w))"

definition ioCopy :: "string \<Rightarrow> http_response \<Rightarrow> world \<Rightarrow> bool \<times> world" where
  "ioCopy path resp w =
     (let sent = (case BodyBreaksAfter resp of None \<Rightarrow> Body resp | Some m \<Rightarrow> take m (Body resp));
          readError = (BodyBreaksAfter resp \<noteq> None);
          written = (case writeLimit w path of None \<Rightarrow> sent | Some l \<Rightarrow> take l sent);
          writeError = (case writeLimit w path of None \<Rightarrow> False | Some l \<Rightarrow> l < length sent)
      in (\<not> readError \<and> \<not> writeError, w\<lparr>files := (files w)(path \<mapsto> written)\<rparr>))"

definition downloadImage :: "string \<Rightarrow> string \<Rightarrow> world \<Rightarrow> download_error option \<times> world" where
  "downloadImage imageURL filePath w =
     (case httpGet imageURL w of
        (Inl err, w1) \<Rightarrow> (Some (TransportError err), w1)
      | (Inr resp, w1) \<Rightarrow>
          if StatusCode resp \<noteq> 200
          then (Some (HTTPStatusError (StatusCode resp) (Status resp)), w1)
          else (case osCreate filePath w1 of (created, w2) \<Rightarrow>
                  if \<not> created then (Some CreateError, w2)
                  else (case ioCopy filePath resp w2 of (copied, w3) \<Rightarrow>
                          if \<not> copied then (Some CopyError, w3) else (None, w3))))"

definition downloadImageTo ::
  "lib \<Rightarrow> string \<Rightarrow> string \<Rightarrow> string \<Rightarrow> world \<Rightarrow> (download_error + string) \<times> world" where
  "downloadImageTo L url dir filename w =
     (case httpGet url w of
        (Inl err, w1) \<Rightarrow> (Inl (TransportError err), w1)
      | (Inr resp, w1) \<Rightarrow>
          if StatusCode resp \<noteq> 200
          then (Inl (HTTPStatusError (StatusCode resp) (Status resp)), w1)
          else (let path = Join L dir filename in
                case osCreate path w1 of (created, w2) \<Rightarrow>
                  if \<not> created then (Inl CreateError, w2)
                  else (case ioCopy path resp w2 of (copied, w3) \<Rightarrow>
                          if \<not> copied then (Inl CopyError, w3) else (Inr path, w3))))"

definition nextResponse :: "world \<Rightarrow> string \<Rightarrow> string + http_response" where
  "nextResponse w url = network w (length (requests w)) url"

definition copyCompletes :: "world \<Rightarrow> string \<Rightarrow> http_response \<Rightarrow> bool" where
  "copyCompletes w path resp =
     (BodyBreaksAfter resp = None \<and>
      (case writeLimit w path of None \<Rightarrow> True | Some l \<Rightarrow> length (Body resp) \<le> l))"

lemmas dl_defs = downloadImage_def downloadImageTo_def httpGet_def osCreate_def ioCopy_def
  nextResponse_def copyCompletes_def Let_def

definition resp200 :: http_response where
  "resp200 = \<lparr>StatusCode = 200, Status = ''200 OK'', Body = ''abcdef'', BodyBreaksAfter = None\<rparr>"

definition resp204 :: http_response where
  "resp204 = \<lparr>StatusCode = 204, Status = ''204 No Content'', Body = [], BodyBreaksAfter = None\<rparr>"

definition resp404 :: http_response where
  "resp404 = \<lparr>StatusCode = 404, Status = ''404 Not Found'', Body = ''gone'', BodyBreaksAfter = None\<rparr>"

definition respBroken :: http_response where
  "respBroken = \<lparr>StatusCode = 200, Status = ''200 OK'', Body = ''abcdef'', BodyBreaksAfter = Some 3\<rparr>"

definition emptyDoc :: document where
  "emptyDoc = \<lparr>images = [], querySelector = (\<lambda>s. None)\<rparr>"

definition world0 :: world where
  "world0 =
     \<lparr>network = (\<lambda>n url.
         if url = ''http://cdn/a.jpg'' then Inr resp200
         else if url = ''http://cdn/b.jpg'' then Inr resp204
         else if url = ''http://cdn/c.jpg'' then Inr resp404
         else if url = ''http://cdn/d.jpg'' then Inr respBroken
         else Inl ''no such host''),
      requests = [],
      files = [''/out/old.jpg'' \<mapsto> ''old''],
      creatable = (\<lambda>path. path \<noteq> ''/readonly/a.jpg''),
      writeLimit = (\<lambda>path. None),
      browser = (\<lambda>n url. Inr emptyDoc),
      navigations = [],
      configFiles = (\<lambda>path.
         if path = ''configs/lidl.json''
         then Inr \<lparr>confID = ''lidl'', confCoverImage = ''http://shop/catalog/page/1'',
                   FirstPage = ''http://shop/catalog/page/1'', LastPage = ''http://shop/catalog/page/3''\<rparr>
         else Inl ''no such file''),
      mkdirAllOK = (\<lambda>dir. True),
      log = []\<rparr>"

lemmas world0_eval = world0_def resp200_def resp204_def resp404_def respBroken_def dl_defs


text \<open>
  Claim C10. When the GET completes with a status other than 200, \<^verbatim>\<open>downloadImage\<close>
  (both versions) returns the status error, and the file system is what it was: the
  destination is neither created nor truncated nor written.
\<close>

theorem downloadImage_status_failure_keeps_files:
  assumes "nextResponse w url = Inr resp" and "StatusCode resp \<noteq> 200"
  shows "fst (downloadImage url filePath w) = Some (HTTPStatusError (StatusCode resp) (Status resp))
       \<and> files (snd (downloadImage url filePath w)) = files w
       \<and> fst (downloadImageTo L url dir filename w) = Inl (HTTPStatusError (StatusCode resp) (Status resp))
       \<and> files (snd (downloadImageTo L url dir filename w)) = files w"
  using assms by (simp add: dl_defs)


theorem downloadImage_status_failure_keeps_files_witness:
  "nextResponse world0 ''http://cdn/c.jpg'' = Inr resp404 \<and> StatusCode resp404 \<noteq> 200 \<and>
   fst (downloadImage ''http://cdn/c.jpg'' ''/out/old.jpg'' world0)
     = Some (HTTPStatusError 404 ''404 Not Found'') \<and>
   files (snd (downloadImage ''http://cdn/c.jpg'' ''/out/old.jpg'' world0)) ''/out/old.jpg'' = Some ''old'' \<and>
   fst (downloadImageTo lib0 ''http://cdn/c.jpg'' ''/out'' ''old.jpg'' world0)
     = Inl (HTTPStatusError 404 ''404 Not Found'') \<and>
   files (snd (downloadImageTo lib0 ''http://cdn/c.jpg'' ''/out'' ''old.jpg'' world0)) ''/out/old.jpg'' = Some ''old''"
proof -
  have a: "nextResponse world0 ''http://cdn/c.jpg'' = Inr resp404"
    by (simp add: world0_def nextResponse_def)
  have b: "StatusCode resp404 \<noteq> 200" by (simp add: resp404_def)
  have f: "files world0 ''/out/old.jpg'' = Some ''old''" by (simp add: world0_def)
  from downloadImage_status_failure_keeps_files
         [OF a b, of "''/out/old.jpg''" lib0 "''/out''" "''old.jpg''"] a b f
  show ?thesis by (simp add: resp404_def)
qed

text \<open>
  Claim C7, as stated: the fetch returns Ok exactly when the GET returns a status in the
  200 range. A response with status 204 is an error, and so is a response with status
  200 when the destination cannot be created.
\<close>

theorem downloadImage_ok_counterexample:
  "fst (downloadImage ''http://cdn/b.jpg'' ''/out/b.jpg'' world0) = Some (HTTPStatusError 204 ''204 No Content'')
   \<and> nextResponse world0 ''http://cdn/a.jpg'' = Inr resp200 \<and> StatusCode resp200 = 200
   \<and> fst (downloadImage ''http://cdn/a.jpg'' ''/readonly/a.jpg'' world0) = Some CreateError"
  by (simp add: world0_eval)


text \<open>
  Claim C7, amended: \<^verbatim>\<open>downloadImage\<close> makes exactly one GET (no retry) and returns
  no error exactly when the GET succeeds with status 200, the destination file can be
  created and the whole body is copied; a transport error is returned as the error
  value, and a status other than 200 as an error carrying the status.
\<close>

theorem downloadImage_result:
  "(fst (downloadImage url filePath w) = None \<longleftrightarrow>
      (\<exists>resp. nextResponse w url = Inr resp \<and> StatusCode resp = 200 \<and>
              creatable w filePath \<and> copyCompletes w filePath resp))
   \<and> (\<forall>err. nextResponse w url = Inl err \<longrightarrow>
          fst (downloadImage url filePath w) = Some (TransportError err))
   \<and> (\<forall>resp. nextResponse w url = Inr resp \<and> StatusCode resp \<noteq> 200 \<longrightarrow>
          fst (downloadImage url filePath w) = Some (HTTPStatusError (StatusCode resp) (Status resp)))
   \<and> requests (snd (downloadImage url filePath w)) = requests w @ [url]"
  by (cases "network w (length (requests w)) url")
     (auto simp: dl_defs split: option.splits)


theorem downloadImage_result_witness:
  "nextResponse world0 ''http://cdn/a.jpg'' = Inr resp200 \<and> StatusCode resp200 = 200 \<and>
   creatable world0 ''/out/a.jpg'' \<and> copyCompletes world0 ''/out/a.jpg'' resp200 \<and>
   fst (downloadImage ''http://cdn/a.jpg'' ''/out/a.jpg'' world0) = None \<and>
   nextResponse world0 ''http://nowhere/x.jpg'' = Inl ''no such host'' \<and>
   fst (downloadImage ''http://nowhere/x.jpg'' ''/out/x.jpg'' world0) = Some (TransportError ''no such host'') \<and>
   requests (snd (downloadImage ''http://nowhere/x.jpg'' ''/out/x.jpg'' world0)) = [''http://nowhere/x.jpg'']"
proof -
  have a: "nextResponse world0 ''http://cdn/a.jpg'' = Inr resp200 \<and> StatusCode resp200 = 200 \<and>
      creatable world0 ''/out/a.jpg'' \<and> copyCompletes world0 ''/out/a.jpg'' resp200"
    by (simp add: world0_eval)
  have b: "nextResponse world0 ''http://nowhere/x.jpg'' = Inl ''no such host''"
    by (simp add: world0_eval)
  have r: "requests world0 = []" by (simp add: world0_def)
  from downloadImage_result[of "''http://cdn/a.jpg''" "''/out/a.jpg''" world0] a
  have 1: "fst (downloadImage ''http://cdn/a.jpg'' ''/out/a.jpg'' world0) = None" by blast
  from downloadImage_result[of "''http://nowhere/x.jpg''" "''/out/x.jpg''" world0] b r
  have 2: "fst (downloadImage ''http://nowhere/x.jpg'' ''/out/x.jpg'' world0) = Some (TransportError ''no such host'')"
    and 3: "requests (snd (downloadImage ''http://nowhere/x.jpg'' ''/out/x.jpg'' world0)) = [''http://nowhere/x.jpg'']"
    by simp_all
  from a b 1 2 3 show ?thesis by blast
qed


text \<open>
  Claim C8, as stated: when copying the body fails after a GET with status 200, no
  partial file is left at the destination. There was no file at the destination, the
  body breaks after three of its six bytes, and the destination holds the three bytes.
\<close>

theorem downloadImage_partial_file_counterexample:
  "nextResponse world0 ''http://cdn/d.jpg'' = Inr respBroken \<and> StatusCode respBroken = 200
   \<and> files world0 ''/out/d.jpg'' = None
   \<and> fst (downloadImage ''http://cdn/d.jpg'' ''/out/d.jpg'' world0) = Some CopyError
   \<and> files (snd (downloadImage ''http://cdn/d.jpg'' ''/out/d.jpg'' world0)) ''/out/d.jpg'' = Some ''abc''"
  by (simp add: world0_eval)

text \<open>
  Claim C8, amended: when the GET succeeds with status 200, the destination is
  created and reading the body fails midway, \<^verbatim>\<open>downloadImage\<close> returns the copy error
  and leaves at the destination a file that holds the bytes copied before the failure,
  a prefix of what the body delivered; nothing removes it.
\<close>

theorem downloadImage_copy_failure_leaves_prefix:
  assumes "nextResponse w url = Inr resp" and "StatusCode resp = 200"
    and "creatable w filePath" and "BodyBreaksAfter resp = Some m"
  shows "fst (downloadImage url filePath w) = Some CopyError
       \<and> (\<exists>written. files (snd (downloadImage url filePath w)) filePath = Some written
             \<and> prefix written (take m (Body resp)))"
  using assms by (auto simp: dl_defs take_is_prefix simp del: take_take split: option.splits)

theorem downloadImage_copy_failure_leaves_prefix_witness:
  "nextResponse world0 ''http://cdn/d.jpg'' = Inr respBroken \<and> StatusCode respBroken = 200 \<and>
   creatable world0 ''/out/old.jpg'' \<and> BodyBreaksAfter respBroken = Some 3 \<and>
   fst (downloadImage ''http://cdn/d.jpg'' ''/out/old.jpg'' world0) = Some CopyError \<and>
   (\<exists>written. files (snd (downloadImage ''http://cdn/d.jpg'' ''/out/old.jpg'' world0)) ''/out/old.jpg''
        = Some written \<and> prefix written ''abc'')"
proof -
  have a: "nextResponse world0 ''http://cdn/d.jpg'' = Inr respBroken"
    by (simp add: world0_def nextResponse_def)
  have b: "StatusCode respBroken = 200" and d: "BodyBreaksAfter respBroken = Some 3"
    by (simp_all add: respBroken_def)
  have c: "creatable world0 ''/out/old.jpg''" by (simp add: world0_def)
  have t: "take 3 (Body respBroken) = ''abc''" by (simp add: respBroken_def)
  from downloadImage_copy_failure_leaves_prefix[OF a b c d] a b c d t
  show ?thesis by simp
qed

section \<open>The image locator\<close>





















subsection \<open>Size-ranked scan first, selector chain second\<close>
































section \<open>ScrapeAndDownloadFromConfig: the acquisition run\<close>




definition wrap64 :: "int \<Rightarrow> int" where
  "wrap64 x = (x + 2 ^ 63) mod 2 ^ 64 - 2 ^ 63"






subsection \<open>What makes a run fail\<close>






lemma wrap64_id: "- (2 ^ 63) \<le> x \<Longrightarrow> x < 2 ^ 63 \<Longrightarrow> wrap64 x = x"
  by (simp add: wrap64_def)















section \<open>scrapeCatalogPages: the page iteration of the store scraper\<close>

text \<open>
  \<^verbatim>\<open>
  seen := make(map[string]bool)
  emptyCount := 0
  for page := 1; page <= config.MaxPages; page++ {
      var imageURL string
      ...
      err := chromedp.Run(ctx, chromedp.Navigate(pageURL), ..., chromedp.Evaluate(selectorJS, &imageURL))
      if err != nil {
          emptyCount++
          if emptyCount >= 3 { break }
          continue
      }
      imageURL = strings.TrimSpace(imageURL)
      if imageURL == "" {
          emptyCount++
          if emptyCount >= 3 { break }
          continue
      }
      if !seen[imageURL] {
          seen[imageURL] = true
          catalog.PageImages = append(catalog.PageImages, imageURL)
          emptyCount = 0 // Reset counter on success
      } else {
          break
      }
  }
  \<close>
  \<open>run page\<close> is the outcome of \<^verbatim>\<open>chromedp.Run\<close> for the page: an error, or the string
  the script evaluated to. The state of the loop is the three variables and, for the
  statements below, the list of the pages navigated to. \<open>scrapeStep\<close> is one pass
  through the body; it says whether the loop goes on (\<^verbatim>\<open>continue\<close> or the end of the
  body) or stops (\<^verbatim>\<open>break\<close>). The counter wraps as a 64-bit \<^verbatim>\<open>int\<close> does, so the
  loop is a partial function.
\<close>

record scrape_state =
  seen :: "string set"
  emptyCount :: int
  foundImages :: "string list"
  visited :: "int list"

definition scrapeStep ::
  "lib \<Rightarrow> (int \<Rightarrow> string + string) \<Rightarrow> int \<Rightarrow> scrape_state \<Rightarrow> bool \<times> scrape_state" where
  "scrapeStep L run page st0 =
     (let st = st0\<lparr>visited := visited st0 @ [page]\<rparr> in
      case run page of
        Inl err \<Rightarrow>
          (let st1 = st\<lparr>emptyCount := emptyCount st + 1\<rparr> in
           if emptyCount st1 \<ge> 3 then (False, st1) else (True, st1))
      | Inr raw \<Rightarrow>
          (let imageURL = TrimSpace L raw in
           if imageURL = [] then
             (let st1 = st\<lparr>emptyCount := emptyCount st + 1\<rparr> in
              if emptyCount st1 \<ge> 3 then (False, st1) else (True, st1))
           else if imageURL \<notin> seen st then
             (True, st\<lparr>seen := insert imageURL (seen st),
                       foundImages := foundImages st @ [imageURL],
                       emptyCount := 0\<rparr>)
           else (False, st)))"

partial_function (option) scrapeLoop ::
  "lib \<Rightarrow> (int \<Rightarrow> string + string) \<Rightarrow> int \<Rightarrow> int \<Rightarrow> scrape_state \<Rightarrow> scrape_state option" where
  "scrapeLoop L run maxPages page st =
     (if page \<le> maxPages
      then (case scrapeStep L run page st of
              (continue, st') \<Rightarrow>
                if continue then scrapeLoop L run maxPages (wrap64 (page + 1)) st'
                else Some st')
      else Some st)"

definition initialState :: scrape_state where
  "initialState = \<lparr>seen = {}, emptyCount = 0, foundImages = [], visited = []\<rparr>"

definition scrapePages :: "lib \<Rightarrow> (int \<Rightarrow> string + string) \<Rightarrow> int \<Rightarrow> scrape_state option" where
  "scrapePages L run maxPages = scrapeLoop L run maxPages 1 initialState"

definition noImage :: "lib \<Rightarrow> (int \<Rightarrow> string + string) \<Rightarrow> int \<Rightarrow> bool" where
  "noImage L run page = (case run page of Inl err \<Rightarrow> True | Inr raw \<Rightarrow> TrimSpace L raw = [])"

definition resolvesTo :: "lib \<Rightarrow> (int \<Rightarrow> string + string) \<Rightarrow> int \<Rightarrow> string \<Rightarrow> bool" where
  "resolvesTo L run page u = (case run page of Inl err \<Rightarrow> False | Inr raw \<Rightarrow> TrimSpace L raw = u \<and> u \<noteq> [])"


text \<open>
  A page resolves to no image when the browser fails or the trimmed result is empty,
  and to \<open>u\<close> when the trimmed result is the non-empty \<open>u\<close>. Three consecutive pages
  from \<open>p\<close> on are stale when all three resolve to no image or all three to the same
  image URL.
\<close>

definition staleTriple :: "lib \<Rightarrow> (int \<Rightarrow> string + string) \<Rightarrow> int \<Rightarrow> bool" where
  "staleTriple L run p =
     ((\<forall>q \<in> {p, p + 1, p + 2}. noImage L run q) \<or>
      (\<exists>u. \<forall>q \<in> {p, p + 1, p + 2}. resolvesTo L run q u))"


subsection \<open>Three stale pages end the iteration\<close>

lemma scrapeStep_visited:
  "scrapeStep L run page st = (b, st') \<Longrightarrow> visited st' = visited st @ [page]"
  by (auto simp: scrapeStep_def Let_def split: sum.splits if_splits)

lemma scrapeStep_emptyCount:
  "scrapeStep L run page st = (b, st') \<Longrightarrow> 0 \<le> emptyCount st \<Longrightarrow> 0 \<le> emptyCount st'"
  by (auto simp: scrapeStep_def Let_def split: sum.splits if_splits)

lemma scrapeStep_noImage:
  "noImage L run page \<Longrightarrow> scrapeStep L run page st = (b, st') \<Longrightarrow>
   emptyCount st' = emptyCount st + 1 \<and> (b \<longleftrightarrow> emptyCount st + 1 < 3)"
  by (auto simp: scrapeStep_def noImage_def Let_def split: sum.splits if_splits)

lemma scrapeStep_resolves:
  "resolvesTo L run page u \<Longrightarrow> scrapeStep L run page st = (b, st') \<Longrightarrow>
   (b \<longleftrightarrow> u \<notin> seen st) \<and> (b \<longrightarrow> u \<in> seen st')"
  by (auto simp: scrapeStep_def resolvesTo_def Let_def split: sum.splits if_splits)

lemma loop_stop:
  assumes "page \<le> maxPages" and "scrapeStep L run page st = (False, st')"
  shows "scrapeLoop L run maxPages page st = Some st'"
  using assms by (subst scrapeLoop.simps) simp

lemma loop_continue:
  assumes "page \<le> maxPages" and "scrapeStep L run page st = (True, st')" and "page < maxInt"
    and "0 \<le> page"
  shows "scrapeLoop L run maxPages page st = scrapeLoop L run maxPages (page + 1) st'"
proof -
  have "wrap64 (page + 1) = page + 1"
    using assms(3,4) by (intro wrap64_id) (simp_all add: maxInt_def)
  with assms(1,2) show ?thesis by (subst scrapeLoop.simps) simp
qed


lemma triple_none_stops:
  assumes n: "noImage L run p" "noImage L run (p + 1)" "noImage L run (p + 2)"
    and e: "0 \<le> emptyCount st" and p: "0 \<le> p" "p + 2 \<le> maxPages" "maxPages \<le> maxInt"
  shows "\<exists>st'. scrapeLoop L run maxPages p st = Some st' \<and>
               set (visited st') \<subseteq> set (visited st) \<union> {p .. p + 2}"
proof -
  obtain b1 st1 where s1: "scrapeStep L run p st = (b1, st1)"
    by (cases "scrapeStep L run p st")
  note v1 = scrapeStep_visited[OF s1] and c1 = scrapeStep_noImage[OF n(1) s1]
  show ?thesis
  proof (cases b1)
    case False
    with s1 p have "scrapeLoop L run maxPages p st = Some st1" by (intro loop_stop) auto
    with v1 show ?thesis by auto
  next
    case True
    with s1 p have l1: "scrapeLoop L run maxPages p st = scrapeLoop L run maxPages (p + 1) st1"
      by (intro loop_continue) auto
    obtain b2 st2 where s2: "scrapeStep L run (p + 1) st1 = (b2, st2)"
      by (cases "scrapeStep L run (p + 1) st1")
    note v2 = scrapeStep_visited[OF s2] and c2 = scrapeStep_noImage[OF n(2) s2]
    show ?thesis
    proof (cases b2)
      case False
      with s2 p have "scrapeLoop L run maxPages (p + 1) st1 = Some st2" by (intro loop_stop) auto
      with l1 v1 v2 show ?thesis by auto
    next
      case True
      with s2 p have l2: "scrapeLoop L run maxPages (p + 1) st1
          = scrapeLoop L run maxPages (p + 1 + 1) st2"
        by (intro loop_continue) auto
      obtain b3 st3 where s3: "scrapeStep L run (p + 2) st2 = (b3, st3)"
        by (cases "scrapeStep L run (p + 2) st2")
      note v3 = scrapeStep_visited[OF s3] and c3 = scrapeStep_noImage[OF n(3) s3]
      have "\<not> b3" using c1 c2 c3 e by simp
      with s3 p have "scrapeLoop L run maxPages (p + 2) st2 = Some st3" by (intro loop_stop) auto
      with l1 l2 v1 v2 v3 show ?thesis by (auto simp: add.assoc)
    qed
  qed
qed

lemma pair_same_stops:
  assumes r: "resolvesTo L run p u" "resolvesTo L run (p + 1) u"
    and p: "0 \<le> p" "p + 2 \<le> maxPages" "maxPages \<le> maxInt"
  shows "\<exists>st'. scrapeLoop L run maxPages p st = Some st' \<and>
               set (visited st') \<subseteq> set (visited st) \<union> {p .. p + 2}"
proof -
  obtain b1 st1 where s1: "scrapeStep L run p st = (b1, st1)"
    by (cases "scrapeStep L run p st")
  note v1 = scrapeStep_visited[OF s1] and c1 = scrapeStep_resolves[OF r(1) s1]
  show ?thesis
  proof (cases b1)
    case False
    with s1 p have "scrapeLoop L run maxPages p st = Some st1" by (intro loop_stop) auto
    with v1 show ?thesis by auto
  next
    case True
    with s1 p have l1: "scrapeLoop L run maxPages p st = scrapeLoop L run maxPages (p + 1) st1"
      by (intro loop_continue) auto
    obtain b2 st2 where s2: "scrapeStep L run (p + 1) st1 = (b2, st2)"
      by (cases "scrapeStep L run (p + 1) st1")
    note v2 = scrapeStep_visited[OF s2] and c2 = scrapeStep_resolves[OF r(2) s2]
    have "\<not> b2" using c1 c2 True by simp
    with s2 p have "scrapeLoop L run maxPages (p + 1) st1 = Some st2" by (intro loop_stop) auto
    with l1 v1 v2 show ?thesis by auto
  qed
qed

lemma stale_triple_stops:
  assumes "staleTriple L run p"
    and "0 \<le> emptyCount st" and "0 \<le> p" "p + 2 \<le> maxPages" "maxPages \<le> maxInt"
  shows "\<exists>st'. scrapeLoop L run maxPages p st = Some st' \<and>
               set (visited st') \<subseteq> set (visited st) \<union> {p .. p + 2}"
  using assms(1) unfolding staleTriple_def
proof
  assume "\<forall>q \<in> {p, p + 1, p + 2}. noImage L run q"
  then show ?thesis using assms(2-) by (intro triple_none_stops) auto
next
  assume "\<exists>u. \<forall>q \<in> {p, p + 1, p + 2}. resolvesTo L run q u"
  then obtain u where "resolvesTo L run p u" "resolvesTo L run (p + 1) u" by auto
  then show ?thesis using assms(3-) by (intro pair_same_stops) auto
qed

lemma loop_reaches_triple:
  assumes t: "staleTriple L run p" and p: "p + 2 \<le> maxPages" "maxPages \<le> maxInt"
    and q: "0 \<le> q" "q \<le> p" and e: "0 \<le> emptyCount st"
  shows "\<exists>st'. scrapeLoop L run maxPages q st = Some st' \<and>
               set (visited st') \<subseteq> set (visited st) \<union> {q .. p + 2}"
  using q e
proof (induction "nat (p - q)" arbitrary: q st)
  case 0
  then have "q = p" by simp
  with stale_triple_stops[OF t "0.prems"(3) _ p] "0.prems" show ?case by simp
next
  case (Suc n)
  then have lt: "q < p" by simp
  obtain b st1 where s: "scrapeStep L run q st = (b, st1)"
    by (cases "scrapeStep L run q st")
  note v = scrapeStep_visited[OF s] and c = scrapeStep_emptyCount[OF s Suc.prems(3)]
  show ?case
  proof (cases b)
    case False
    with s lt p have "scrapeLoop L run maxPages q st = Some st1" by (intro loop_stop) auto
    with v lt show ?thesis by auto
  next
    case True
    with s lt p Suc.prems have l: "scrapeLoop L run maxPages q st
        = scrapeLoop L run maxPages (q + 1) st1"
      by (intro loop_continue) auto
    have "n = nat (p - (q + 1))" using Suc.hyps(2) by simp
    from Suc.hyps(1)[OF this _ _ c] lt Suc.prems
    obtain st' where r: "scrapeLoop L run maxPages (q + 1) st1 = Some st'"
      and sub: "set (visited st') \<subseteq> set (visited st1) \<union> {q + 1 .. p + 2}"
      by auto
    have "set (visited st1) \<union> {q + 1 .. p + 2} \<subseteq> set (visited st) \<union> {q .. p + 2}"
      using v lt by auto
    with sub have "set (visited st') \<subseteq> set (visited st) \<union> {q .. p + 2}" by blast
    with l r show ?thesis by simp
  qed
qed

definition allFail :: "int \<Rightarrow> string + string" where
  "allFail page = Inl ''timeout''"

lemma wrap64_small: "wrap64 2 = 2" "wrap64 3 = 3" "wrap64 4 = 4"
  by (simp_all add: wrap64_def)


text \<open>
  Claim C2, as stated: whenever three consecutive pages resolve to the same image URL or
  to none, the iteration stops before it reaches the last page index of the range.
  With a range of three pages that all resolve to no image, the third failure ends the
  iteration at page 3, the last page of the range, which has been visited.
\<close>

theorem stale_triple_at_range_end_counterexample:
  "staleTriple lib0 allFail 1 \<and>
   scrapePages lib0 allFail 3
     = Some \<lparr>seen = {}, emptyCount = 3, foundImages = [], visited = [1, 2, 3]\<rparr>"
  by (simp add: staleTriple_def noImage_def allFail_def scrapePages_def initialState_def lib0_def
        scrapeLoop.simps scrapeStep_def wrap64_small Let_def)


text \<open>
  Claim C2, amended: whenever three consecutive pages \<open>p\<close>, \<open>p + 1\<close>, \<open>p + 2\<close> of the
  range resolve to the same image URL or all to none, the iteration ends and no page
  after \<open>p + 2\<close> is visited; so the last page of the range is not visited when it
  lies behind the three.
\<close>

theorem stale_triple_ends_iteration:
  assumes "1 \<le> p" and "p + 2 \<le> maxPages" and "maxPages \<le> maxInt"
    and "staleTriple L run p"
  shows "\<exists>st. scrapePages L run maxPages = Some st \<and>
              (\<forall>v \<in> set (visited st). v \<le> p + 2) \<and>
              (p + 2 < maxPages \<longrightarrow> maxPages \<notin> set (visited st))"
proof -
  from loop_reaches_triple[OF assms(4,2,3), of 1 initialState] assms(1)
  obtain st where s: "scrapeLoop L run maxPages 1 initialState = Some st"
    and v: "set (visited st) \<subseteq> set (visited initialState) \<union> {1 .. p + 2}"
    by (auto simp: initialState_def)
  from v have "\<forall>v \<in> set (visited st). v \<le> p + 2" by (auto simp: initialState_def)
  with s show ?thesis unfolding scrapePages_def by auto
qed


theorem stale_triple_ends_iteration_witness:
  "(1::int) \<le> 1 \<and> (1::int) + 2 \<le> 5 \<and> (5::int) \<le> maxInt \<and> staleTriple lib0 allFail 1 \<and>
   (\<exists>st. scrapePages lib0 allFail 5 = Some st \<and> (\<forall>v \<in> set (visited st). v \<le> 3) \<and>
         5 \<notin> set (visited st))"
proof -
  have t: "staleTriple lib0 allFail 1"
    by (simp add: staleTriple_def noImage_def allFail_def lib0_def)
  have m: "(5::int) \<le> maxInt" by (simp add: maxInt_def)
  from stale_triple_ends_iteration[of 1 5 lib0 allFail, OF _ _ m t] t m show ?thesis by simp
qed

end
